theory Spec2Isabelle
  imports Complex_Main
begin

section \<open>The fan controller \<open>cpu_temp_monitors.py\<close>\<close>

text \<open>
  The script samples three temperature domains (processor, network adapter, storage),
  maps each reading through a threshold table to a fan level, keeps one level per domain
  in a global variable and drives the fan with the highest of the three.

  Modelling decisions.
  \<^item> Python's unbounded \<open>int\<close> is \<^typ>\<open>int\<close>. A temperature is a Python \<open>float\<close>
    that is only ever compared with integer thresholds and with other temperatures;
    Python compares a float with an int exactly, so a temperature is a \<^typ>\<open>real\<close>.
  \<^item> The three readers \<open>get_cpu_temperature\<close>, \<open>get_nic_temperature\<close> and
    \<open>get_hdd_temperature\<close> run external programs and scrape their text. Each catches
    every \<open>Exception\<close> itself and returns \<open>None\<close> (an empty dictionary for the
    storage reader) in that case, so what a monitor cycle sees of them is a value:
    a \<^typ>\<open>real option\<close>, or the items of a dictionary from device to temperature.
    These values are parameters of the cycle functions.
  \<^item> \<open>subprocess.run(command, check=True)\<close> in \<open>set_fan_speed\<close> returns, raises
    \<open>CalledProcessError\<close> (the command ran and exited non-zero), or raises another
    exception (the command could not be started). The handler names only
    \<open>CalledProcessError\<close>, so the three cases are kept apart.
  \<^item> Clock readings (\<open>time.time()\<close>) are Python floats, here reals. The one
    arithmetic operation the program does on them is the floating point addition
    \<open>timefunc() + delay\<close> in \<open>scheduler.enter\<close>. Its result is rounded, so it is not
    the sum of the reals; the operation is a parameter \<open>fadd\<close> of the model, and a
    statement that depends on a property of floating point addition names it as a
    condition.
  \<^item> \<open>print\<close> calls are left out.
\<close>

subsection \<open>Configuration\<close>

definition CPU_SENSORS_CHECK_INTERVAL :: real where
  "CPU_SENSORS_CHECK_INTERVAL = 5"

definition NIC_SENSORS_CHECK_INTERVAL :: real where
  "NIC_SENSORS_CHECK_INTERVAL = 5"

definition HDD_SENSORS_CHECK_INTERVAL :: real where
  "HDD_SENSORS_CHECK_INTERVAL = 60"

text \<open>A threshold table is a list of pairs \<open>[temp_threshold, fan_value]\<close>.\<close>

type_synonym thresholds = "(int \<times> int) list"

definition CPU_THRESHOLDS :: thresholds where
  "CPU_THRESHOLDS =
    [(1, 1), (27, 1), (33, 1), (37, 3), (42, 3), (49, 3), (54, 5),
     (59, 5), (64, 5), (69, 6), (73, 6), (79, 6), (80, 7), (87, 7)]"

definition NIC_THRESHOLDS :: thresholds where
  "NIC_THRESHOLDS =
    [(1, 1), (27, 1), (33, 1), (37, 3), (42, 3), (49, 3), (54, 5),
     (59, 5), (64, 5), (69, 6), (73, 6), (79, 6), (80, 7), (87, 7)]"

definition HDD_THRESHOLDS :: thresholds where
  "HDD_THRESHOLDS =
    [(1, 1), (22, 2), (28, 2), (34, 2), (37, 3), (42, 3), (47, 4),
     (51, 5), (57, 6), (61, 7)]"

subsection \<open>\<open>choose_fan_value\<close>\<close>

text \<open>
  \<^verbatim>\<open>
  chosen_value = 1
  for threshold, fan_val in thresholds:
      if temperature >= threshold:
          chosen_value = fan_val
      else:
          break
  return chosen_value
  \<close>
  \<open>choose_loop\<close> is the \<open>for\<close> loop with \<open>chosen_value\<close> as its accumulator.
\<close>

fun choose_loop :: "real \<Rightarrow> thresholds \<Rightarrow> int \<Rightarrow> int" where
  "choose_loop temperature [] chosen_value = chosen_value"
| "choose_loop temperature ((threshold, fan_val) # rest) chosen_value =
     (if temperature \<ge> real_of_int threshold
      then choose_loop temperature rest fan_val
      else chosen_value)"

definition choose_fan_value :: "real \<Rightarrow> thresholds \<Rightarrow> int" where
  "choose_fan_value temperature thresholds = choose_loop temperature thresholds 1"

subsection \<open>The program state\<close>

text \<open>
  The callbacks the scheduler holds are the three monitor functions; an event of the
  scheduler's queue is \<open>(time, priority, sequence, action)\<close>.
\<close>

datatype action = Check_cpu | Check_hdds | Check_nic

record event =
  ev_time :: real
  ev_priority :: int
  ev_sequence :: nat
  ev_action :: action

text \<open>
  The globals \<open>cpu_fan_speed\<close>, \<open>hdd_fan_speed\<close>, \<open>nic_fan_speed\<close>, the scheduler
  (its queue and its sequence counter), and \<open>commands\<close>: the argument vectors that
  \<open>set_fan_speed\<close> has handed to \<open>subprocess.run\<close> so far, oldest first.
\<close>

record state =
  cpu_fan_speed :: int
  hdd_fan_speed :: int
  nic_fan_speed :: int
  queue :: "event list"
  sequence :: nat
  commands :: "string list list"

definition initial_state :: state where
  "initial_state =
    \<lparr>cpu_fan_speed = 3, hdd_fan_speed = 3, nic_fan_speed = 3,
     queue = [], sequence = 0, commands = []\<rparr>"

text \<open>
  A call either returns, or an exception leaves it that nothing in the script catches.
  The globals keep their values in both cases.
\<close>

datatype 'a outcome = Completed 'a | Uncaught 'a

fun state_of :: "'a outcome \<Rightarrow> 'a" where
  "state_of (Completed s) = s"
| "state_of (Uncaught s) = s"

fun is_completed :: "'a outcome \<Rightarrow> bool" where
  "is_completed (Completed s) = True"
| "is_completed (Uncaught s) = False"

subsection \<open>\<open>set_fan_speed\<close> and \<open>update_final_fan_speed\<close>\<close>

text \<open>Python's \<open>str\<close> on an integer: decimal digits, a minus sign when negative.\<close>

definition digit_char :: "nat \<Rightarrow> char" where
  "digit_char d = ''0123456789'' ! d"

function str_nat :: "nat \<Rightarrow> string" where
  "str_nat n = (if n < 10 then [digit_char n] else str_nat (n div 10) @ [digit_char (n mod 10)])"
  by pat_completeness auto
termination
  by (relation "measure id") auto

declare str_nat.simps [simp del]

definition str_int :: "int \<Rightarrow> string" where
  "str_int i = (if i < 0 then CHR ''-'' # str_nat (nat (- i)) else str_nat (nat i))"

datatype run_result = Returns | Raises_CalledProcessError | Raises_other

text \<open>
  \<^verbatim>\<open>
  fan_speed = max(0x01, min(fan_speed, 0x64))
  command = ["ipmitool", "raw", "0x3c", "0x30", "0x00", "0x00", str(fan_speed)]
  try:
      subprocess.run(command, check=True)
  except subprocess.CalledProcessError as e:
      print(...)
  \<close>
\<close>

definition ipmitool_command :: "int \<Rightarrow> string list" where
  "ipmitool_command fan_speed =
    [''ipmitool'', ''raw'', ''0x3c'', ''0x30'', ''0x00'', ''0x00'', str_int fan_speed]"

definition set_fan_speed :: "int \<Rightarrow> run_result \<Rightarrow> state \<Rightarrow> state outcome" where
  "set_fan_speed fan_speed r s =
    (let fan_speed = max 1 (min fan_speed 100);
         command = ipmitool_command fan_speed;
         s' = s\<lparr>commands := commands s @ [command]\<rparr>
     in case r of
          Returns \<Rightarrow> Completed s'
        | Raises_CalledProcessError \<Rightarrow> Completed s'
        | Raises_other \<Rightarrow> Uncaught s')"

text \<open>
  \<^verbatim>\<open>
  final_speed = max(cpu_fan_speed, hdd_fan_speed, nic_fan_speed)
  set_fan_speed(final_speed)
  \<close>
\<close>

definition final_speed :: "state \<Rightarrow> int" where
  "final_speed s = max (cpu_fan_speed s) (max (hdd_fan_speed s) (nic_fan_speed s))"

definition update_final_fan_speed :: "run_result \<Rightarrow> state \<Rightarrow> state outcome" where
  "update_final_fan_speed r s = set_fan_speed (final_speed s) r s"

subsection \<open>The scheduler's \<open>enter\<close> and the monitor cycles\<close>

text \<open>
  \<open>scheduler.enter(delay, priority, action)\<close> reads the clock (\<open>time.time()\<close>, here the
  parameter \<open>now\<close>) and queues the action for the floating point sum of \<open>now\<close> and
  \<open>delay\<close>, here \<open>fadd now delay\<close>, with the next sequence number.
\<close>

type_synonym float_add = "real \<Rightarrow> real \<Rightarrow> real"

definition enter :: "float_add \<Rightarrow> real \<Rightarrow> real \<Rightarrow> int \<Rightarrow> action \<Rightarrow> state \<Rightarrow> state" where
  "enter fadd now delay priority act s =
    s\<lparr>queue := queue s @
         [\<lparr>ev_time = fadd now delay, ev_priority = priority,
           ev_sequence = sequence s, ev_action = act\<rparr>],
      sequence := Suc (sequence s)\<rparr>"

text \<open>
  \<open>check_cpu\<close>: \<open>cpu_temp\<close> is what \<open>get_cpu_temperature()\<close> returned, \<open>r\<close> what
  \<open>subprocess.run\<close> does in \<open>set_fan_speed\<close>, \<open>now\<close> the clock reading taken by
  \<open>scheduler.enter\<close> at the end of the cycle.
\<close>

definition check_cpu ::
  "float_add \<Rightarrow> real option \<Rightarrow> run_result \<Rightarrow> real \<Rightarrow> state \<Rightarrow> state outcome" where
  "check_cpu fadd cpu_temp r now s =
    (let s1 = (case cpu_temp of
                 Some t \<Rightarrow> s\<lparr>cpu_fan_speed := choose_fan_value t CPU_THRESHOLDS\<rparr>
               | None \<Rightarrow> s)
     in case update_final_fan_speed r s1 of
          Uncaught s2 \<Rightarrow> Uncaught s2
        | Completed s2 \<Rightarrow> Completed (enter fadd now CPU_SENSORS_CHECK_INTERVAL 1 Check_cpu s2))"

definition check_nic ::
  "float_add \<Rightarrow> real option \<Rightarrow> run_result \<Rightarrow> real \<Rightarrow> state \<Rightarrow> state outcome" where
  "check_nic fadd nic_temp r now s =
    (let s1 = (case nic_temp of
                 Some t \<Rightarrow> s\<lparr>nic_fan_speed := choose_fan_value t NIC_THRESHOLDS\<rparr>
               | None \<Rightarrow> s)
     in case update_final_fan_speed r s1 of
          Uncaught s2 \<Rightarrow> Uncaught s2
        | Completed s2 \<Rightarrow> Completed (enter fadd now NIC_SENSORS_CHECK_INTERVAL 1 Check_nic s2))"

text \<open>
  \<open>check_hdds\<close>: \<open>hdd_temperatures\<close> is \<open>get_hdd_temperature().items()\<close>, empty when
  the reader failed or matched no device.
  \<^verbatim>\<open>
  max_hdd_temp = 0.0
  for device, hdd_temp in hdd_temperatures.items():
      if hdd_temp > max_hdd_temp:
          max_hdd_temp = hdd_temp
  hdd_fan_speed = choose_fan_value(max_hdd_temp, HDD_THRESHOLDS)
  \<close>
\<close>

fun max_loop :: "(string \<times> real) list \<Rightarrow> real \<Rightarrow> real" where
  "max_loop [] max_hdd_temp = max_hdd_temp"
| "max_loop ((device, hdd_temp) # rest) max_hdd_temp =
     max_loop rest (if hdd_temp > max_hdd_temp then hdd_temp else max_hdd_temp)"

definition check_hdds ::
  "float_add \<Rightarrow> (string \<times> real) list \<Rightarrow> run_result \<Rightarrow> real \<Rightarrow> state \<Rightarrow> state outcome" where
  "check_hdds fadd hdd_temperatures r now s =
    (let max_hdd_temp = max_loop hdd_temperatures 0;
         s1 = s\<lparr>hdd_fan_speed := choose_fan_value max_hdd_temp HDD_THRESHOLDS\<rparr>
     in case update_final_fan_speed r s1 of
          Uncaught s2 \<Rightarrow> Uncaught s2
        | Completed s2 \<Rightarrow> Completed (enter fadd now HDD_SENSORS_CHECK_INTERVAL 2 Check_hdds s2))"

subsection \<open>The scheduler's \<open>run\<close> and \<open>main\<close>\<close>

text \<open>
  \<open>scheduler\<close> is a \<open>sched.scheduler(time.time, time.sleep)\<close> of Python's standard
  library, which is not part of the repository. Its model follows the library's contract,
  which section 4.4 of the specification repeats: the queue is ordered by time, then by
  priority (a lower number first), then by the order of entry; \<open>run()\<close> takes the first
  event of that order, sleeps until its time has come, removes it and calls its action to
  completion, and goes on until the queue is empty. An exception of an action leaves
  \<open>run()\<close>. Clock readings and delays are seconds.
\<close>

definition event_lt :: "event \<Rightarrow> event \<Rightarrow> bool" where
  "event_lt a b =
    (ev_time a < ev_time b \<or>
     (ev_time a = ev_time b \<and>
      (ev_priority a < ev_priority b \<or>
       (ev_priority a = ev_priority b \<and> ev_sequence a < ev_sequence b))))"

fun earliest :: "event \<Rightarrow> event list \<Rightarrow> event" where
  "earliest e [] = e"
| "earliest e (x # xs) = earliest (if event_lt x e then x else e) xs"

definition pop :: "event list \<Rightarrow> (event \<times> event list) option" where
  "pop q = (case q of [] \<Rightarrow> None | e # es \<Rightarrow> Some (earliest e es, remove1 (earliest e es) q))"

text \<open>
  What the environment contributes to one iteration of \<open>run()\<close> that calls an action:
  the values the three readers would return, what \<open>subprocess.run\<close> does, and
  \<open>elapsed\<close>, the time that passes between the moment the event may start (its time has
  come and the previous action is over) and the clock reading of \<open>scheduler.enter\<close> at
  the end of the action. The clock is the wall clock: \<open>elapsed\<close> is negative when the
  clock is set back in between.
\<close>

record step_input =
  cpu_reading :: "real option"
  nic_reading :: "real option"
  hdd_readings :: "(string \<times> real) list"
  actuator :: run_result
  elapsed :: real

fun call_action ::
  "float_add \<Rightarrow> action \<Rightarrow> step_input \<Rightarrow> real \<Rightarrow> state \<Rightarrow> state outcome" where
  "call_action fadd Check_cpu i now s = check_cpu fadd (cpu_reading i) (actuator i) now s"
| "call_action fadd Check_hdds i now s = check_hdds fadd (hdd_readings i) (actuator i) now s"
| "call_action fadd Check_nic i now s = check_nic fadd (nic_reading i) (actuator i) now s"

text \<open>
  \<open>run()\<close> loops for as long as the queue is not empty, so it is run on a finite prefix
  of the environment: one \<open>step_input\<close> for each action called. \<open>Pending\<close> says that the
  prefix is used up and the loop goes on, \<open>Queue_empty\<close> that \<open>run()\<close> returned,
  \<open>Exception\<close> that an action raised. The first component lists the actions called, in
  order; \<open>clk\<close> is the latest clock reading.
\<close>

datatype run_end = Pending state | Queue_empty state | Exception state

fun final_state :: "run_end \<Rightarrow> state" where
  "final_state (Pending s) = s"
| "final_state (Queue_empty s) = s"
| "final_state (Exception s) = s"

fun run ::
  "float_add \<Rightarrow> step_input list \<Rightarrow> real \<Rightarrow> state \<Rightarrow> action list \<times> run_end" where
  "run fadd [] clk s = ([], Pending s)"
| "run fadd (i # inputs) clk s =
     (case pop (queue s) of
        None \<Rightarrow> ([], Queue_empty s)
      | Some (ev, q) \<Rightarrow>
          (let now = max clk (ev_time ev) + elapsed i
           in case call_action fadd (ev_action ev) i now (s\<lparr>queue := q\<rparr>) of
                Uncaught s' \<Rightarrow> ([ev_action ev], Exception s')
              | Completed s' \<Rightarrow>
                  (let (acts, e) = run fadd inputs now s' in (ev_action ev # acts, e))))"

text \<open>
  \<^verbatim>\<open>
  scheduler.enter(0, 1, check_cpu)
  scheduler.enter(0, 2, check_hdds)
  scheduler.enter(0, 3, check_nic)
  scheduler.run()
  \<close>
  \<open>t1\<close>, \<open>t2\<close>, \<open>t3\<close> are the clock readings of the three \<open>enter\<close> calls.
\<close>

definition seed :: "float_add \<Rightarrow> real \<Rightarrow> real \<Rightarrow> real \<Rightarrow> state" where
  "seed fadd t1 t2 t3 =
    enter fadd t3 0 3 Check_nic
      (enter fadd t2 0 2 Check_hdds (enter fadd t1 0 1 Check_cpu initial_state))"

definition main ::
  "float_add \<Rightarrow> real \<Rightarrow> real \<Rightarrow> real \<Rightarrow> step_input list \<Rightarrow> action list \<times> run_end" where
  "main fadd t1 t2 t3 inputs = run fadd inputs t3 (seed fadd t1 t2 t3)"

subsection \<open>Notions used in the statements\<close>

text \<open>
  The interval and the priority with which each monitor function queues itself again
  (the arguments of the \<open>scheduler.enter\<close> call at its end).
\<close>

fun interval_of :: "action \<Rightarrow> real" where
  "interval_of Check_cpu = CPU_SENSORS_CHECK_INTERVAL"
| "interval_of Check_hdds = HDD_SENSORS_CHECK_INTERVAL"
| "interval_of Check_nic = NIC_SENSORS_CHECK_INTERVAL"

fun priority_of :: "action \<Rightarrow> int" where
  "priority_of Check_cpu = 1"
| "priority_of Check_hdds = 2"
| "priority_of Check_nic = 1"

text \<open>
  The number that a string of decimal digits denotes: how the last argument of the
  \<open>ipmitool\<close> command is read back.
\<close>

fun decimal_loop :: "string \<Rightarrow> nat \<Rightarrow> nat" where
  "decimal_loop [] acc = acc"
| "decimal_loop (c # cs) acc = decimal_loop cs (10 * acc + (of_char c - 48))"

definition decimal_value :: "string \<Rightarrow> nat" where
  "decimal_value cs = decimal_loop cs 0"

text \<open>The three latched levels lie between 1 and 7.\<close>

definition levels_in_range :: "state \<Rightarrow> bool" where
  "levels_in_range s =
    (1 \<le> cpu_fan_speed s \<and> cpu_fan_speed s \<le> 7 \<and>
     1 \<le> hdd_fan_speed s \<and> hdd_fan_speed s \<le> 7 \<and>
     1 \<le> nic_fan_speed s \<and> nic_fan_speed s \<le> 7)"

text \<open>
  The latest command, if there is one, carries the highest of the three latched levels
  as it is, not a clamped value.
\<close>

definition last_unclamped :: "state \<Rightarrow> bool" where
  "last_unclamped s = (commands s = [] \<or> last (commands s) = ipmitool_command (final_speed s))"

text \<open>The table of the example in section 8 of the specification.\<close>

definition example_table :: thresholds where
  "example_table = [(1, 1), (27, 1), (37, 3), (54, 5), (69, 6), (80, 7)]"

text \<open>
  An environment for four iterations of \<open>run()\<close>: the storage cycle takes 10 s, twice
  the interval of the processor cycle, and its \<open>ipmitool\<close> call exits non-zero.
\<close>

definition slow_start :: "step_input list" where
  "slow_start =
    [\<lparr>cpu_reading = Some 40, nic_reading = None, hdd_readings = [], actuator = Returns,
      elapsed = 1\<rparr>,
     \<lparr>cpu_reading = None, nic_reading = None, hdd_readings = [(''/dev/nvme0'', 45)],
      actuator = Raises_CalledProcessError, elapsed = 10\<rparr>,
     \<lparr>cpu_reading = None, nic_reading = Some 70, hdd_readings = [], actuator = Returns,
      elapsed = 1\<rparr>,
     \<lparr>cpu_reading = Some 41, nic_reading = None, hdd_readings = [], actuator = Returns,
      elapsed = 1\<rparr>]"

text \<open>
  An environment for three iterations in which the clock is set back by 10 s while the
  first action runs, and then stands still.
\<close>

definition clock_set_back :: "step_input list" where
  "clock_set_back =
    [\<lparr>cpu_reading = Some 40, nic_reading = None, hdd_readings = [], actuator = Returns,
      elapsed = - 10\<rparr>,
     \<lparr>cpu_reading = Some 40, nic_reading = None, hdd_readings = [], actuator = Returns,
      elapsed = 0\<rparr>,
     \<lparr>cpu_reading = Some 40, nic_reading = None, hdd_readings = [], actuator = Returns,
      elapsed = 0\<rparr>]"

text \<open>
  An environment for three iterations during which the clock reading does not change,
  and floating point addition at the clock value \<open>2 ^ 60\<close>: doubles are 256 apart
  there, so adding 0, 5 or 60 to \<open>2 ^ 60\<close> gives \<open>2 ^ 60\<close>. (Elsewhere the function is
  plain addition; only sums with \<open>2 ^ 60\<close> are used.)
\<close>

definition clock_stands_still :: "step_input list" where
  "clock_stands_still =
    [\<lparr>cpu_reading = Some 40, nic_reading = None, hdd_readings = [], actuator = Returns,
      elapsed = 0\<rparr>,
     \<lparr>cpu_reading = Some 40, nic_reading = None, hdd_readings = [], actuator = Returns,
      elapsed = 0\<rparr>,
     \<lparr>cpu_reading = Some 40, nic_reading = None, hdd_readings = [], actuator = Returns,
      elapsed = 0\<rparr>]"

definition add_at_2_60 :: float_add where
  "add_at_2_60 x d = (if x = 2 ^ 60 \<and> 0 \<le> d \<and> d \<le> 60 then x else x + d)"

section \<open>Lemmas about \<open>choose_fan_value\<close>\<close>

text \<open>The scan stops at the first threshold above the temperature: it reads a prefix.\<close>

lemma choose_loop_takeWhile:
  "choose_loop t tb c =
    (if takeWhile (\<lambda>e. real_of_int (fst e) \<le> t) tb = [] then c
     else snd (last (takeWhile (\<lambda>e. real_of_int (fst e) \<le> t) tb)))"
  by (induction tb arbitrary: c) auto

lemma takeWhile_greatest:
  assumes srt: "sorted_wrt (<) (map fst tb)"
    and i: "i < length tb" and le: "real_of_int (fst (tb ! i)) \<le> t"
    and gr: "\<forall>j<length tb. real_of_int (fst (tb ! j)) \<le> t \<longrightarrow> j \<le> i"
  shows "takeWhile (\<lambda>e. real_of_int (fst e) \<le> t) tb = take (Suc i) tb"
proof (rule takeWhile_eq_take_P_nth)
  fix j assume "j < Suc i" "j < length tb"
  show "real_of_int (fst (tb ! j)) \<le> t"
  proof (cases "j = i")
    case True then show ?thesis using le by simp
  next
    case False
    then have "j < i" using \<open>j < Suc i\<close> by simp
    then have "fst (tb ! j) < fst (tb ! i)"
      using srt i by (simp add: sorted_wrt_iff_nth_less)
    then show ?thesis using le by linarith
  qed
next
  assume "Suc i < length tb"
  then show "\<not> real_of_int (fst (tb ! Suc i)) \<le> t"
    using gr by auto
qed

lemma choose_greatest:
  assumes srt: "sorted_wrt (<) (map fst tb)"
    and i: "i < length tb" and le: "real_of_int (fst (tb ! i)) \<le> t"
    and gr: "\<forall>j<length tb. real_of_int (fst (tb ! j)) \<le> t \<longrightarrow> j \<le> i"
  shows "choose_fan_value t tb = snd (tb ! i)"
proof -
  have tk: "takeWhile (\<lambda>e. real_of_int (fst e) \<le> t) tb = take (Suc i) tb"
    using assms by (rule takeWhile_greatest)
  have ne: "take (Suc i) tb \<noteq> []" using i by auto
  have "last (take (Suc i) tb) = tb ! i"
    using i by (simp add: take_Suc_conv_app_nth)
  then show ?thesis
    using ne by (simp add: choose_fan_value_def choose_loop_takeWhile tk)
qed

lemma choose_none:
  assumes "\<forall>j<length tb. \<not> real_of_int (fst (tb ! j)) \<le> t"
  shows "choose_fan_value t tb = 1"
proof (cases tb)
  case Nil then show ?thesis by (simp add: choose_fan_value_def)
next
  case (Cons e es)
  obtain th v where e: "e = (th, v)" by (cases e)
  from assms Cons have "\<not> real_of_int (fst (tb ! 0)) \<le> t" by auto
  then show ?thesis using Cons e by (simp add: choose_fan_value_def)
qed

lemma choose_below_first:
  assumes "tb \<noteq> []" "t < real_of_int (fst (tb ! 0))"
  shows "choose_fan_value t tb = 1"
  using assms by (cases tb) (auto simp: choose_fan_value_def)

lemma choose_loop_range: "choose_loop t tb c \<in> insert c (snd ` set tb)"
  by (induction tb arbitrary: c) (auto split: if_splits, force+)

lemma choose_loop_lower:
  "sorted (map snd tb) \<Longrightarrow> \<forall>e\<in>set tb. c \<le> snd e \<Longrightarrow> c \<le> choose_loop t tb c"
proof (induction tb arbitrary: c)
  case Nil then show ?case by simp
next
  case (Cons e tb)
  obtain th v where e: "e = (th, v)" by (cases e)
  have "v \<le> choose_loop t tb v"
    using Cons.prems e by (intro Cons.IH) auto
  moreover have "c \<le> v" using Cons.prems e by simp
  ultimately show ?case using e by simp
qed

lemma choose_loop_mono:
  "sorted (map snd tb) \<Longrightarrow> \<forall>e\<in>set tb. c \<le> snd e \<Longrightarrow> t1 \<le> t2 \<Longrightarrow>
    choose_loop t1 tb c \<le> choose_loop t2 tb c"
proof (induction tb arbitrary: c)
  case Nil then show ?case by simp
next
  case (Cons e tb)
  obtain th v where e: "e = (th, v)" by (cases e)
  have srt: "sorted (map snd tb)" and ge: "\<forall>x\<in>set tb. v \<le> snd x" and cv: "c \<le> v"
    using Cons.prems e by auto
  have ih: "choose_loop t1 tb v \<le> choose_loop t2 tb v"
    using srt ge Cons.prems(3) by (rule Cons.IH)
  have lo: "v \<le> choose_loop t2 tb v"
    using srt ge by (rule choose_loop_lower)
  show ?case using e ih lo cv Cons.prems(3) by auto
qed

lemma choose_cpu_range:
  "1 \<le> choose_fan_value t CPU_THRESHOLDS \<and> choose_fan_value t CPU_THRESHOLDS \<le> 7"
  using choose_loop_range[of t CPU_THRESHOLDS 1]
  by (auto simp: choose_fan_value_def CPU_THRESHOLDS_def)

lemma choose_nic_range:
  "1 \<le> choose_fan_value t NIC_THRESHOLDS \<and> choose_fan_value t NIC_THRESHOLDS \<le> 7"
  using choose_loop_range[of t NIC_THRESHOLDS 1]
  by (auto simp: choose_fan_value_def NIC_THRESHOLDS_def)

lemma choose_hdd_range:
  "1 \<le> choose_fan_value t HDD_THRESHOLDS \<and> choose_fan_value t HDD_THRESHOLDS \<le> 7"
  using choose_loop_range[of t HDD_THRESHOLDS 1]
  by (auto simp: choose_fan_value_def HDD_THRESHOLDS_def)

section \<open>Lemmas about the actuator command and the monitor cycles\<close>

lemma decimal_loop_append: "decimal_loop (xs @ ys) acc = decimal_loop ys (decimal_loop xs acc)"
  by (induction xs arbitrary: acc) simp_all

lemma digit_char_value: "d < 10 \<Longrightarrow> of_char (digit_char d) - 48 = (d::nat)"
proof -
  assume "d < 10"
  then consider "d = 0" | "d = 1" | "d = 2" | "d = 3" | "d = 4" | "d = 5" | "d = 6" | "d = 7"
    | "d = 8" | "d = 9" by atomize_elim arith
  then show ?thesis by cases (simp_all add: digit_char_def)
qed

lemma decimal_str_nat: "decimal_value (str_nat n) = n"
proof (induction n rule: str_nat.induct)
  case (1 n)
  show ?case
  proof (cases "n < 10")
    case True
    then show ?thesis
      by (subst str_nat.simps) (simp add: decimal_value_def digit_char_value)
  next
    case False
    then have ih: "decimal_loop (str_nat (n div 10)) 0 = n div 10"
      using 1 by (simp add: decimal_value_def)
    have "n mod 10 < 10" by simp
    then have d: "of_char (digit_char (n mod 10)) - 48 = n mod 10" by (rule digit_char_value)
    show ?thesis using False
      by (subst str_nat.simps) (simp add: decimal_value_def decimal_loop_append ih d)
  qed
qed

lemma decimal_str_int: "0 \<le> i \<Longrightarrow> int (decimal_value (str_int i)) = i"
  by (simp add: str_int_def decimal_str_nat)

lemma set_fan_speed_state:
  "state_of (set_fan_speed n r s) =
    s\<lparr>commands := commands s @ [ipmitool_command (max 1 (min n 100))]\<rparr>"
  by (cases r) (simp_all add: set_fan_speed_def)

lemma set_fan_speed_completed: "is_completed (set_fan_speed n r s) = (r \<noteq> Raises_other)"
  by (cases r) (simp_all add: set_fan_speed_def)

lemma update_final_state:
  "state_of (update_final_fan_speed r s) =
    s\<lparr>commands := commands s @ [ipmitool_command (max 1 (min (final_speed s) 100))]\<rparr>"
  by (simp add: update_final_fan_speed_def set_fan_speed_state)

lemma update_final_completed: "is_completed (update_final_fan_speed r s) = (r \<noteq> Raises_other)"
  by (simp add: update_final_fan_speed_def set_fan_speed_completed)

lemma outcome_eq: "x = (if is_completed x then Completed (state_of x) else Uncaught (state_of x))"
  by (cases x) simp_all

lemma update_final_eq:
  "update_final_fan_speed r s =
    (if r \<noteq> Raises_other then Completed (state_of (update_final_fan_speed r s))
     else Uncaught (state_of (update_final_fan_speed r s)))"
  using outcome_eq[of "update_final_fan_speed r s"] by (simp add: update_final_completed)

text \<open>Each cycle as one equation: the latch, the command, and the new queue entry.\<close>

lemma check_cpu_eq:
  "check_cpu fadd temp r now s =
    (let s1 = (case temp of
                 Some t \<Rightarrow> s\<lparr>cpu_fan_speed := choose_fan_value t CPU_THRESHOLDS\<rparr>
               | None \<Rightarrow> s);
         s2 = state_of (update_final_fan_speed r s1)
     in if r \<noteq> Raises_other
        then Completed (enter fadd now CPU_SENSORS_CHECK_INTERVAL 1 Check_cpu s2)
        else Uncaught s2)"
  unfolding check_cpu_def Let_def
  by (subst update_final_eq) simp

lemma check_nic_eq:
  "check_nic fadd temp r now s =
    (let s1 = (case temp of
                 Some t \<Rightarrow> s\<lparr>nic_fan_speed := choose_fan_value t NIC_THRESHOLDS\<rparr>
               | None \<Rightarrow> s);
         s2 = state_of (update_final_fan_speed r s1)
     in if r \<noteq> Raises_other
        then Completed (enter fadd now NIC_SENSORS_CHECK_INTERVAL 1 Check_nic s2)
        else Uncaught s2)"
  unfolding check_nic_def Let_def
  by (subst update_final_eq) simp

lemma check_hdds_eq:
  "check_hdds fadd temps r now s =
    (let s1 = s\<lparr>hdd_fan_speed := choose_fan_value (max_loop temps 0) HDD_THRESHOLDS\<rparr>;
         s2 = state_of (update_final_fan_speed r s1)
     in if r \<noteq> Raises_other
        then Completed (enter fadd now HDD_SENSORS_CHECK_INTERVAL 2 Check_hdds s2)
        else Uncaught s2)"
  unfolding check_hdds_def Let_def
  by (subst update_final_eq) simp

lemma call_action_completed:
  "is_completed (call_action fadd a i now s) = (actuator i \<noteq> Raises_other)"
  by (cases a) (simp_all add: check_cpu_eq check_nic_eq check_hdds_eq Let_def)

lemma call_action_queue:
  "actuator i \<noteq> Raises_other \<Longrightarrow>
    queue (state_of (call_action fadd a i now s)) =
      queue s @ [\<lparr>ev_time = fadd now (interval_of a), ev_priority = priority_of a,
                 ev_sequence = sequence s, ev_action = a\<rparr>]"
  by (cases a; cases "cpu_reading i"; cases "nic_reading i")
    (simp_all add: check_cpu_eq check_nic_eq check_hdds_eq Let_def update_final_state enter_def)

lemma interval_pos: "0 < interval_of a"
  by (cases a) (simp_all add: CPU_SENSORS_CHECK_INTERVAL_def HDD_SENSORS_CHECK_INTERVAL_def
      NIC_SENSORS_CHECK_INTERVAL_def)

text \<open>What every cycle does: one recompute step, and its own next entry in the queue.\<close>

lemma cycle_reschedules:
  assumes "r \<noteq> Raises_other"
  shows "is_completed (check_cpu fadd temp r now s)
       \<and> queue (state_of (check_cpu fadd temp r now s)) =
           queue s @ [\<lparr>ev_time = fadd now 5, ev_priority = 1,
                       ev_sequence = sequence s, ev_action = Check_cpu\<rparr>]
       \<and> is_completed (check_nic fadd temp r now s)
       \<and> queue (state_of (check_nic fadd temp r now s)) =
           queue s @ [\<lparr>ev_time = fadd now 5, ev_priority = 1,
                       ev_sequence = sequence s, ev_action = Check_nic\<rparr>]
       \<and> is_completed (check_hdds fadd temps r now s)
       \<and> queue (state_of (check_hdds fadd temps r now s)) =
           queue s @ [\<lparr>ev_time = fadd now 60, ev_priority = 2,
                       ev_sequence = sequence s, ev_action = Check_hdds\<rparr>]"
  using assms
  by (cases temp)
    (simp_all add: check_cpu_eq check_nic_eq check_hdds_eq Let_def update_final_state enter_def
      CPU_SENSORS_CHECK_INTERVAL_def NIC_SENSORS_CHECK_INTERVAL_def
      HDD_SENSORS_CHECK_INTERVAL_def)

lemma cycle_recomputes:
  "length (commands (state_of (check_cpu fadd temp r now s))) = Suc (length (commands s))
   \<and> length (commands (state_of (check_nic fadd temp r now s))) = Suc (length (commands s))
   \<and> length (commands (state_of (check_hdds fadd temps r now s))) = Suc (length (commands s))"
  by (cases temp)
    (simp_all add: check_cpu_eq check_nic_eq check_hdds_eq Let_def update_final_state enter_def)

section \<open>Lemmas about the scheduler\<close>

lemma earliest_head: "\<forall>x\<in>set es. \<not> event_lt x e \<Longrightarrow> earliest e es = e"
  by (induction es) simp_all

lemma pop_head: "\<forall>x\<in>set es. \<not> event_lt x e \<Longrightarrow> pop (e # es) = Some (e, es)"
  by (simp add: pop_def earliest_head)

text \<open>One iteration from a queue whose head is the earliest event.\<close>

lemma run_head:
  assumes q: "queue s = e # es" and hd: "\<forall>x\<in>set es. \<not> event_lt x e"
  shows "run fadd (i # inputs) clk s =
    (let now = max clk (ev_time e) + elapsed i;
         r = call_action fadd (ev_action e) i now (s\<lparr>queue := es\<rparr>)
     in if actuator i = Raises_other then ([ev_action e], Exception (state_of r))
        else (ev_action e # fst (run fadd inputs now (state_of r)), snd (run fadd inputs now (state_of r))))"
proof -
  have p: "pop (queue s) = Some (e, es)" using q hd by (simp add: pop_head)
  let ?now = "max clk (ev_time e) + elapsed i"
  let ?r = "call_action fadd (ev_action e) i ?now (s\<lparr>queue := es\<rparr>)"
  have c: "is_completed ?r = (actuator i \<noteq> Raises_other)"
    by (rule call_action_completed)
  show ?thesis
  proof (cases ?r)
    case (Completed s')
    then show ?thesis using c p by (simp add: Let_def case_prod_beta)
  next
    case (Uncaught s')
    then show ?thesis using c p by (simp add: Let_def)
  qed
qed


lemma run_pending_first:
  assumes "queue s = pending @ resched"
    and "sorted_wrt (\<lambda>a b. \<not> event_lt b a) pending"
    and "\<forall>e\<in>set pending. ev_time e \<le> T"
    and "\<forall>x\<in>set resched. T < ev_time x"
    and "T \<le> clk"
    and "\<forall>i\<in>set inputs. 0 \<le> elapsed i"
    and "\<forall>x y d. x \<le> y \<longrightarrow> fadd x d \<le> fadd y d"
    and "\<forall>a. T < fadd T (interval_of a)"
  shows "take (length pending) (fst (run fadd inputs clk s)) =
           take (length (fst (run fadd inputs clk s))) (map ev_action pending)
       \<and> (length pending \<le> length inputs \<longrightarrow>
          (\<forall>i\<in>set (take (length pending) inputs). actuator i \<noteq> Raises_other) \<longrightarrow>
          length pending \<le> length (fst (run fadd inputs clk s)))"
  using assms
proof (induction pending arbitrary: inputs clk s resched)
  case Nil
  then show ?case by simp
next
  case (Cons e p)
  show ?case
  proof (cases inputs)
    case Nil
    then show ?thesis by simp
  next
    case (Cons i r)
    have q: "queue s = e # (p @ resched)" using Cons.prems(1) by simp
    have hd: "\<forall>x\<in>set (p @ resched). \<not> event_lt x e"
    proof
      fix x assume "x \<in> set (p @ resched)"
      then consider "x \<in> set p" | "x \<in> set resched" by auto
      then show "\<not> event_lt x e"
      proof cases
        case 1 then show ?thesis using Cons.prems(2) by simp
      next
        case 2
        then have "ev_time e < ev_time x" using Cons.prems(3,4) by fastforce
        then show ?thesis by (simp add: event_lt_def)
      qed
    qed
    define now where "now = max clk (ev_time e) + elapsed i"
    define s' where "s' = state_of (call_action fadd (ev_action e) i now (s\<lparr>queue := p @ resched\<rparr>))"
    have run_eq: "run fadd inputs clk s =
        (if actuator i = Raises_other then ([ev_action e], Exception s')
         else (ev_action e # fst (run fadd r now s'), snd (run fadd r now s')))"
      unfolding Cons now_def s'_def using run_head[OF q hd, where fadd = fadd and i = i and inputs = r and clk = clk] by (simp add: Let_def)
    show ?thesis
    proof (cases "actuator i = Raises_other")
      case True
      then show ?thesis using run_eq Cons by (simp del: run.simps)
    next
      case False
      have el: "0 \<le> elapsed i" using Cons.prems(6) Cons by simp
      have now_ge: "T \<le> now" using el Cons.prems(5) by (simp add: now_def max_def)
      let ?new = "\<lparr>ev_time = fadd now (interval_of (ev_action e)), ev_priority = priority_of (ev_action e),
                 ev_sequence = sequence (s\<lparr>queue := p @ resched\<rparr>), ev_action = ev_action e\<rparr>"
      have q': "queue s' = p @ (resched @ [?new])"
        unfolding s'_def using call_action_queue[OF False] by simp
      have "fadd T (interval_of (ev_action e)) \<le> fadd now (interval_of (ev_action e))"
        using Cons.prems(7) now_ge by blast
      moreover have "T < fadd T (interval_of (ev_action e))"
        using Cons.prems(8) by blast
      ultimately have "T < fadd now (interval_of (ev_action e))" by linarith
      then have new_late: "\<forall>x\<in>set (resched @ [?new]). T < ev_time x"
        using Cons.prems(4) by auto
      have ih: "take (length p) (fst (run fadd r now s')) =
           take (length (fst (run fadd r now s'))) (map ev_action p)
       \<and> (length p \<le> length r \<longrightarrow>
          (\<forall>i\<in>set (take (length p) r). actuator i \<noteq> Raises_other) \<longrightarrow>
          length p \<le> length (fst (run fadd r now s')))"
      proof (rule Cons.IH[OF q' _ _ new_late now_ge])
        show "sorted_wrt (\<lambda>a b. \<not> event_lt b a) p" using Cons.prems(2) by simp
        show "\<forall>e\<in>set p. ev_time e \<le> T" using Cons.prems(3) by simp
        show "\<forall>i\<in>set r. 0 \<le> elapsed i" using Cons.prems(6) Cons by simp
        show "\<forall>x y d. x \<le> y \<longrightarrow> fadd x d \<le> fadd y d" by (rule Cons.prems(7))
        show "\<forall>a. T < fadd T (interval_of a)" by (rule Cons.prems(8))
      qed
      show ?thesis using False run_eq ih Cons by (simp del: run.simps)
    qed
  qed
qed

lemma queue_seed:
  "queue (seed fadd t1 t2 t3) =
    [\<lparr>ev_time = fadd t1 0, ev_priority = 1, ev_sequence = 0, ev_action = Check_cpu\<rparr>,
     \<lparr>ev_time = fadd t2 0, ev_priority = 2, ev_sequence = 1, ev_action = Check_hdds\<rparr>,
     \<lparr>ev_time = fadd t3 0, ev_priority = 3, ev_sequence = 2, ev_action = Check_nic\<rparr>]"
  by (simp add: seed_def enter_def initial_state_def)

lemma startup_prefix:
  assumes "t1 \<le> t2" "t2 \<le> t3" "\<forall>i\<in>set inputs. 0 \<le> elapsed i"
    and "\<forall>t. fadd t 0 = t"
    and "\<forall>x y d. x \<le> y \<longrightarrow> fadd x d \<le> fadd y d"
    and "\<forall>a. t3 < fadd t3 (interval_of a)"
  shows "take 3 (fst (main fadd t1 t2 t3 inputs)) =
           take (length (fst (main fadd t1 t2 t3 inputs))) [Check_cpu, Check_hdds, Check_nic]
       \<and> (3 \<le> length inputs \<longrightarrow>
          (\<forall>i\<in>set (take 3 inputs). actuator i \<noteq> Raises_other) \<longrightarrow>
          3 \<le> length (fst (main fadd t1 t2 t3 inputs)))"
proof -
  let ?p = "[\<lparr>ev_time = fadd t1 0, ev_priority = 1, ev_sequence = 0, ev_action = Check_cpu\<rparr>,
     \<lparr>ev_time = fadd t2 0, ev_priority = 2, ev_sequence = 1, ev_action = Check_hdds\<rparr>,
     \<lparr>ev_time = fadd t3 0, ev_priority = 3, ev_sequence = 2, ev_action = Check_nic\<rparr>]"
  have q: "queue (seed fadd t1 t2 t3) = ?p @ []" by (simp add: queue_seed)
  have srt: "sorted_wrt (\<lambda>a b. \<not> event_lt b a) ?p"
    using assms(1,2,4) by (simp add: event_lt_def)
  have le: "\<forall>e\<in>set ?p. ev_time e \<le> t3" using assms(1,2,4) by simp
  have "\<forall>x\<in>set ([]::event list). t3 < ev_time x" by simp
  from run_pending_first[OF q srt le this order_refl assms(3,5,6)]
  show ?thesis by (simp add: main_def numeral_3_eq_3)
qed

section \<open>The latched levels stay in range\<close>

lemma update_final_inv:
  assumes "levels_in_range s"
  shows "levels_in_range (state_of (update_final_fan_speed r s))
       \<and> last_unclamped (state_of (update_final_fan_speed r s))"
proof -
  have "max 1 (min (final_speed s) 100) = final_speed s"
    using assms by (auto simp: levels_in_range_def final_speed_def)
  then show ?thesis
    using assms
    by (simp add: update_final_state levels_in_range_def last_unclamped_def final_speed_def)
qed

lemma enter_inv:
  "levels_in_range (enter fadd now d p a s) = levels_in_range s"
  "last_unclamped (enter fadd now d p a s) = last_unclamped s"
  by (simp_all add: enter_def levels_in_range_def last_unclamped_def final_speed_def)

lemma queue_inv:
  "levels_in_range (s\<lparr>queue := q\<rparr>) = levels_in_range s"
  by (simp_all add: levels_in_range_def)

lemma call_action_inv:
  assumes "levels_in_range s"
  shows "levels_in_range (state_of (call_action fadd a i now s))
       \<and> last_unclamped (state_of (call_action fadd a i now s))"
proof (cases a)
  case Check_cpu
  let ?s1 = "case cpu_reading i of Some t \<Rightarrow> s\<lparr>cpu_fan_speed := choose_fan_value t CPU_THRESHOLDS\<rparr> | None \<Rightarrow> s"
  have "levels_in_range ?s1"
    using assms choose_cpu_range by (auto simp: levels_in_range_def split: option.splits)
  from update_final_inv[OF this, of "actuator i"] show ?thesis
    using Check_cpu by (cases "actuator i = Raises_other") (simp_all add: check_cpu_eq Let_def enter_inv)
next
  case Check_hdds
  let ?s1 = "s\<lparr>hdd_fan_speed := choose_fan_value (max_loop (hdd_readings i) 0) HDD_THRESHOLDS\<rparr>"
  have "levels_in_range ?s1"
    using assms choose_hdd_range by (auto simp: levels_in_range_def)
  from update_final_inv[OF this, of "actuator i"] show ?thesis
    using Check_hdds by (cases "actuator i = Raises_other") (simp_all add: check_hdds_eq Let_def enter_inv)
next
  case Check_nic
  let ?s1 = "case nic_reading i of Some t \<Rightarrow> s\<lparr>nic_fan_speed := choose_fan_value t NIC_THRESHOLDS\<rparr> | None \<Rightarrow> s"
  have "levels_in_range ?s1"
    using assms choose_nic_range by (auto simp: levels_in_range_def split: option.splits)
  from update_final_inv[OF this, of "actuator i"] show ?thesis
    using Check_nic by (cases "actuator i = Raises_other") (simp_all add: check_nic_eq Let_def enter_inv)
qed

lemma run_inv:
  "levels_in_range s \<Longrightarrow> last_unclamped s \<Longrightarrow>
    levels_in_range (final_state (snd (run fadd inputs clk s)))
    \<and> last_unclamped (final_state (snd (run fadd inputs clk s)))"
proof (induction inputs arbitrary: clk s)
  case Nil
  then show ?case by simp
next
  case (Cons i inputs)
  show ?case
  proof (cases "pop (queue s)")
    case None
    then show ?thesis using Cons.prems by simp
  next
    case (Some a)
    obtain ev q where a: "a = (ev, q)" by (cases a)
    define now where "now = max clk (ev_time ev) + elapsed i"
    let ?r = "call_action fadd (ev_action ev) i now (s\<lparr>queue := q\<rparr>)"
    have inv: "levels_in_range (state_of ?r) \<and> last_unclamped (state_of ?r)"
      by (rule call_action_inv) (simp add: queue_inv Cons.prems)
    show ?thesis
    proof (cases ?r)
      case (Completed s')
      then have "levels_in_range s'" "last_unclamped s'" using inv by simp_all
      from Cons.IH[OF this, of now] show ?thesis
        using Some a Completed by (simp add: now_def Let_def case_prod_beta)
    next
      case (Uncaught s')
      then show ?thesis using Some a inv by (simp add: now_def Let_def)
    qed
  qed
qed

lemma seed_inv: "levels_in_range (seed fadd t1 t2 t3) \<and> last_unclamped (seed fadd t1 t2 t3)"
  by (simp add: seed_def enter_inv)
    (simp add: levels_in_range_def last_unclamped_def initial_state_def)

text \<open>A failed sample: what each cycle does to its own latched level.\<close>

lemma failed_sample_keeps_cpu_nic:
  "cpu_fan_speed (state_of (check_cpu fadd None r now s)) = cpu_fan_speed s
   \<and> nic_fan_speed (state_of (check_nic fadd None r now s)) = nic_fan_speed s"
  by (simp add: check_cpu_eq check_nic_eq update_final_state enter_def Let_def)

lemma check_hdds_empty: "hdd_fan_speed (state_of (check_hdds fadd [] r now s)) = 1"
  by (simp add: check_hdds_eq update_final_state enter_def Let_def choose_fan_value_def
      HDD_THRESHOLDS_def)

section \<open>The claims\<close>

subsection \<open>C1: a failed sample and the latched level\<close>

text \<open>
  C1 says that in every domain a cycle whose sample fails leaves that domain's latched
  level as it was, the storage domain with an empty device set included. The processor
  and the network adapter cycles do so (\<open>failed_sample_keeps_cpu_nic\<close>). The storage
  cycle does not: \<open>check_hdds\<close> has no branch for an empty dictionary, so the maximum
  stays at its start value \<open>0.0\<close>, which lies below the first threshold of
  \<open>HDD_THRESHOLDS\<close>, and \<open>hdd_fan_speed\<close> is overwritten with the fallback 1.
  The theorem evaluates the storage cycle on an empty dictionary from a latched level 7,
  once and twice in a row.
\<close>

theorem check_hdds_failed_sample_overwrites:
  "hdd_fan_speed (initial_state\<lparr>hdd_fan_speed := 7\<rparr>) = 7
   \<and> hdd_fan_speed (state_of (check_hdds fadd [] Returns 0 (initial_state\<lparr>hdd_fan_speed := 7\<rparr>))) = 1
   \<and> hdd_fan_speed (state_of (check_hdds fadd [] Returns 60
        (state_of (check_hdds fadd [] Returns 0 (initial_state\<lparr>hdd_fan_speed := 7\<rparr>))))) = 1"
  by (simp add: check_hdds_empty)

subsection \<open>C2: \<open>choose_fan_value\<close> returns the level of the last qualifying entry\<close>

text \<open>
  C2: for every table sorted strictly ascending by threshold and every temperature \<open>t\<close>,
  \<open>choose_fan_value t table\<close> is the level of the entry at the greatest index \<open>i\<close> with
  \<open>table[i].threshold \<le> t\<close>; it is 1 when no entry qualifies, in particular when \<open>t\<close>
  is below the first threshold; on the example table it is 1 at 36, 3 at 37 and 7 at 90.
\<close>

theorem choose_fan_value_last_qualifying:
  assumes "sorted_wrt (<) (map fst table)"
  shows "(\<forall>i<length table.
            real_of_int (fst (table ! i)) \<le> t
            \<and> (\<forall>j<length table. real_of_int (fst (table ! j)) \<le> t \<longrightarrow> j \<le> i)
            \<longrightarrow> choose_fan_value t table = snd (table ! i))
       \<and> ((\<forall>j<length table. \<not> real_of_int (fst (table ! j)) \<le> t)
            \<longrightarrow> choose_fan_value t table = 1)
       \<and> (table \<noteq> [] \<and> t < real_of_int (fst (table ! 0)) \<longrightarrow> choose_fan_value t table = 1)
       \<and> choose_fan_value 36 example_table = 1
       \<and> choose_fan_value 37 example_table = 3
       \<and> choose_fan_value 90 example_table = 7"
proof (intro conjI allI impI)
  fix i assume "i < length table"
    and "real_of_int (fst (table ! i)) \<le> t
      \<and> (\<forall>j<length table. real_of_int (fst (table ! j)) \<le> t \<longrightarrow> j \<le> i)"
  then show "choose_fan_value t table = snd (table ! i)"
    using assms by (intro choose_greatest) simp_all
next
  assume "\<forall>j<length table. \<not> real_of_int (fst (table ! j)) \<le> t"
  then show "choose_fan_value t table = 1" by (rule choose_none)
next
  assume "table \<noteq> [] \<and> t < real_of_int (fst (table ! 0))"
  then show "choose_fan_value t table = 1" by (simp add: choose_below_first)
next
  show "choose_fan_value 36 example_table = 1"
    by (simp add: choose_fan_value_def example_table_def)
  show "choose_fan_value 37 example_table = 3"
    by (simp add: choose_fan_value_def example_table_def)
  show "choose_fan_value 90 example_table = 7"
    by (simp add: choose_fan_value_def example_table_def)
qed

text \<open>
  The witness: the example table is sorted; at 37 the greatest qualifying index is 2
  (threshold 37, level 3); at 0, below the first threshold, no entry qualifies.
\<close>

theorem choose_fan_value_last_qualifying_witness:
  "sorted_wrt (<) (map fst example_table)
   \<and> 2 < length example_table
   \<and> real_of_int (fst (example_table ! 2)) \<le> 37
   \<and> \<not> real_of_int (fst (example_table ! 3)) \<le> 37
   \<and> choose_fan_value 37 example_table = snd (example_table ! 2)
   \<and> snd (example_table ! 2) = 3
   \<and> example_table \<noteq> []
   \<and> 0 < real_of_int (fst (example_table ! 0))
   \<and> choose_fan_value 0 example_table = 1"
proof -
  have srt: "sorted_wrt (<) (map fst example_table)"
    by (simp add: example_table_def)
  have gr: "\<forall>j<length example_table. real_of_int (fst (example_table ! j)) \<le> 37 \<longrightarrow> j \<le> 2"
  proof (intro allI impI)
    fix j assume j: "j < length example_table"
      and le: "real_of_int (fst (example_table ! j)) \<le> 37"
    from j consider "j = 0" | "j = 1" | "j = 2" | "j = 3" | "j = 4" | "j = 5"
      unfolding example_table_def by atomize_elim (simp, arith)
    then show "j \<le> 2" using le by cases (simp_all add: example_table_def)
  qed
  have none: "\<forall>j<length example_table. \<not> real_of_int (fst (example_table ! j)) \<le> 0"
  proof (intro allI impI)
    fix j assume j: "j < length example_table"
    from j consider "j = 0" | "j = 1" | "j = 2" | "j = 3" | "j = 4" | "j = 5"
      unfolding example_table_def by atomize_elim (simp, arith)
    then show "\<not> real_of_int (fst (example_table ! j)) \<le> 0"
      by cases (simp_all add: example_table_def)
  qed
  have facts: "2 < length example_table" "real_of_int (fst (example_table ! 2)) \<le> 37"
    "\<not> real_of_int (fst (example_table ! 3)) \<le> 37" "snd (example_table ! 2) = 3"
    "example_table \<noteq> []" "0 < real_of_int (fst (example_table ! 0))"
    by (simp_all add: example_table_def)
  from choose_fan_value_last_qualifying[OF srt, of 37] facts gr
  have a: "choose_fan_value 37 example_table = snd (example_table ! 2)" by blast
  from choose_fan_value_last_qualifying[OF srt, of 0] none
  have b: "choose_fan_value 0 example_table = 1" by blast
  show ?thesis using srt facts a b by simp
qed

subsection \<open>C3: the recompute step sends the highest latched level\<close>

text \<open>
  C3: whenever \<open>update_final_fan_speed\<close> runs, the value that goes to the actuator is
  the maximum of the three latched levels, clamped to 1..100; with the latched levels
  4, 7 and 2 (in any assignment to the domains) the actuator is invoked with 7.
  The step appends one command, whatever \<open>subprocess.run\<close> does. The command is written
  out: its last argument is the decimal numeral of the clamped maximum, and read back as
  a number it is the clamped maximum.
\<close>

theorem update_final_fan_speed_sends_max:
  "state_of (update_final_fan_speed r s) =
     s\<lparr>commands := commands s @
        [ipmitool_command
          (max 1 (min (Max {cpu_fan_speed s, hdd_fan_speed s, nic_fan_speed s}) 100))]\<rparr>
   \<and> commands (state_of (update_final_fan_speed r s)) =
       commands s @
        [[''ipmitool'', ''raw'', ''0x3c'', ''0x30'', ''0x00'', ''0x00'',
          str_int (max 1 (min (Max {cpu_fan_speed s, hdd_fan_speed s, nic_fan_speed s}) 100))]]
   \<and> int (decimal_value (last (last (commands (state_of (update_final_fan_speed r s)))))) =
       max 1 (min (Max {cpu_fan_speed s, hdd_fan_speed s, nic_fan_speed s}) 100)
   \<and> ({cpu_fan_speed s, hdd_fan_speed s, nic_fan_speed s} = {4, 7, 2} \<longrightarrow>
        commands (state_of (update_final_fan_speed r s)) =
          commands s @ [[''ipmitool'', ''raw'', ''0x3c'', ''0x30'', ''0x00'', ''0x00'', ''7'']])"
proof -
  define v where "v = max 1 (min (Max {cpu_fan_speed s, hdd_fan_speed s, nic_fan_speed s}) 100)"
  have m: "Max {cpu_fan_speed s, hdd_fan_speed s, nic_fan_speed s} = final_speed s"
    by (simp add: final_speed_def)
  have st: "state_of (update_final_fan_speed r s) =
      s\<lparr>commands := commands s @ [ipmitool_command v]\<rparr>"
    by (simp add: update_final_state m v_def)
  have cmds: "commands (state_of (update_final_fan_speed r s)) =
      commands s @ [[''ipmitool'', ''raw'', ''0x3c'', ''0x30'', ''0x00'', ''0x00'', str_int v]]"
    by (simp add: st ipmitool_command_def)
  have "0 \<le> v" by (simp add: v_def)
  then have "int (decimal_value (str_int v)) = v" by (rule decimal_str_int)
  then have readback: "int (decimal_value (last (last (commands (state_of
      (update_final_fan_speed r s)))))) = v"
    by (simp add: cmds)
  have seven: "str_int 7 = ''7''"
    by (simp add: str_int_def str_nat.simps digit_char_def)
  have "v = 7" if "{cpu_fan_speed s, hdd_fan_speed s, nic_fan_speed s} = {4, 7, 2}"
  proof -
    have "Max {cpu_fan_speed s, hdd_fan_speed s, nic_fan_speed s} = Max {4, 7, 2::int}"
      using that by simp
    then show ?thesis by (simp add: v_def)
  qed
  then have ex: "{cpu_fan_speed s, hdd_fan_speed s, nic_fan_speed s} = {4, 7, 2} \<longrightarrow>
        commands (state_of (update_final_fan_speed r s)) =
          commands s @ [[''ipmitool'', ''raw'', ''0x3c'', ''0x30'', ''0x00'', ''0x00'', ''7'']]"
    using cmds seven by simp
  show ?thesis using st cmds readback ex unfolding v_def by blast
qed

text \<open>
  The witness: the levels 4, 7 and 2 of the claim; and, by the other conjuncts, the
  levels 1, 1 and 1 send 1.
\<close>

theorem update_final_fan_speed_sends_max_witness:
  "{cpu_fan_speed (initial_state\<lparr>cpu_fan_speed := 4, hdd_fan_speed := 7, nic_fan_speed := 2\<rparr>),
    hdd_fan_speed (initial_state\<lparr>cpu_fan_speed := 4, hdd_fan_speed := 7, nic_fan_speed := 2\<rparr>),
    nic_fan_speed (initial_state\<lparr>cpu_fan_speed := 4, hdd_fan_speed := 7, nic_fan_speed := 2\<rparr>)}
     = {4, 7, 2}
   \<and> commands (state_of (update_final_fan_speed Returns
        (initial_state\<lparr>cpu_fan_speed := 4, hdd_fan_speed := 7, nic_fan_speed := 2\<rparr>))) =
      [[''ipmitool'', ''raw'', ''0x3c'', ''0x30'', ''0x00'', ''0x00'', ''7'']]
   \<and> int (decimal_value (last (last (commands (state_of (update_final_fan_speed Returns
        (initial_state\<lparr>cpu_fan_speed := 1, hdd_fan_speed := 1, nic_fan_speed := 1\<rparr>))))))) = 1"
proof -
  let ?s = "initial_state\<lparr>cpu_fan_speed := 4, hdd_fan_speed := 7, nic_fan_speed := 2\<rparr>"
  have levels: "{cpu_fan_speed ?s, hdd_fan_speed ?s, nic_fan_speed ?s} = {4, 7, 2}"
    by simp
  have "commands ?s = []" by (simp add: initial_state_def)
  with update_final_fan_speed_sends_max[of Returns ?s] levels
  have "commands (state_of (update_final_fan_speed Returns ?s)) =
      [[''ipmitool'', ''raw'', ''0x3c'', ''0x30'', ''0x00'', ''0x00'', ''7'']]"
    by (metis append_Nil)
  moreover have "int (decimal_value (last (last (commands (state_of (update_final_fan_speed
      Returns (initial_state\<lparr>cpu_fan_speed := 1, hdd_fan_speed := 1, nic_fan_speed := 1\<rparr>)))))))
      = 1"
  proof -
    let ?u = "initial_state\<lparr>cpu_fan_speed := 1, hdd_fan_speed := 1, nic_fan_speed := 1\<rparr>"
    have "int (decimal_value (last (last (commands (state_of
        (update_final_fan_speed Returns ?u)))))) =
        max 1 (min (Max {cpu_fan_speed ?u, hdd_fan_speed ?u, nic_fan_speed ?u}) 100)"
      using update_final_fan_speed_sends_max[of Returns ?u] by blast
    also have "\<dots> = 1" by simp
    finally show ?thesis .
  qed
  ultimately show ?thesis using levels by blast
qed

subsection \<open>C4: \<open>choose_fan_value\<close> is monotone in the temperature\<close>

text \<open>
  C4 as stated: for every table that is strictly ascending by threshold and whose levels
  are non-decreasing, \<open>t1 \<le> t2\<close> implies
  \<open>choose_fan_value t1 table \<le> choose_fan_value t2 table\<close>. This fails for a table
  with a level below the start value 1 of \<open>chosen_value\<close>: with the table \<open>[(10, 0)]\<close>
  the result is 1 at 5 and 0 at 10.
\<close>

theorem choose_fan_value_mono_counterexample:
  "sorted_wrt (<) (map fst [(10::int, 0::int)])
   \<and> sorted (map snd [(10::int, 0::int)])
   \<and> (5::real) \<le> 10
   \<and> \<not> choose_fan_value 5 [(10, 0)] \<le> choose_fan_value 10 [(10, 0)]"
  by (simp add: choose_fan_value_def)

text \<open>
  C4 as amended: for every table that is strictly ascending by threshold, whose levels
  are non-decreasing and all at least 1 (as in the three configured tables), \<open>t1 \<le> t2\<close>
  implies \<open>choose_fan_value t1 table \<le> choose_fan_value t2 table\<close>.
\<close>

theorem choose_fan_value_mono:
  assumes "sorted_wrt (<) (map fst table)"
    and "sorted (map snd table)"
    and "\<forall>e\<in>set table. 1 \<le> snd e"
    and "t1 \<le> t2"
  shows "choose_fan_value t1 table \<le> choose_fan_value t2 table"
  unfolding choose_fan_value_def using assms(2,3,4) by (rule choose_loop_mono)

text \<open>The witness: the storage table meets the three conditions; 30 and 50 give 2 and 4.\<close>

theorem choose_fan_value_mono_witness:
  "sorted_wrt (<) (map fst HDD_THRESHOLDS)
   \<and> sorted (map snd HDD_THRESHOLDS)
   \<and> (30::real) \<le> 50
   \<and> choose_fan_value 30 HDD_THRESHOLDS \<le> choose_fan_value 50 HDD_THRESHOLDS
   \<and> choose_fan_value 30 HDD_THRESHOLDS = 2
   \<and> choose_fan_value 50 HDD_THRESHOLDS = 4"
proof -
  have a: "sorted_wrt (<) (map fst HDD_THRESHOLDS)" by (simp add: HDD_THRESHOLDS_def)
  have b: "sorted (map snd HDD_THRESHOLDS)" by (simp add: HDD_THRESHOLDS_def)
  have c: "\<forall>e\<in>set HDD_THRESHOLDS. 1 \<le> snd e" by (simp add: HDD_THRESHOLDS_def)
  have d: "(30::real) \<le> 50" by simp
  have v: "choose_fan_value 30 HDD_THRESHOLDS = 2" "choose_fan_value 50 HDD_THRESHOLDS = 4"
    by (simp_all add: choose_fan_value_def HDD_THRESHOLDS_def)
  from choose_fan_value_mono[OF a b c d] a b v show ?thesis by simp
qed

subsection \<open>C5: \<open>set_fan_speed\<close> clamps to 1..100\<close>

text \<open>
  C5: for every integer \<open>n\<close>, \<open>set_fan_speed n\<close> passes exactly
  \<open>max(1, min(n, 100))\<close> to the actuator command, and never a value outside 1..100.
  The call appends one command to the history, whatever \<open>subprocess.run\<close> does; the
  last argument of that command is the decimal numeral of the clamped value.
\<close>

theorem set_fan_speed_clamps:
  "state_of (set_fan_speed n r s) =
     s\<lparr>commands := commands s @ [ipmitool_command (max 1 (min n 100))]\<rparr>
   \<and> last (ipmitool_command (max 1 (min n 100))) = str_int (max 1 (min n 100))
   \<and> int (decimal_value (last (ipmitool_command (max 1 (min n 100))))) = max 1 (min n 100)
   \<and> 1 \<le> max 1 (min n 100) \<and> max 1 (min n 100) \<le> 100"
proof -
  have "(0::int) \<le> max 1 (min n 100)" by simp
  then have "int (decimal_value (str_int (max 1 (min n 100)))) = max 1 (min n 100)"
    by (rule decimal_str_int)
  then show ?thesis
    by (simp add: set_fan_speed_state) (simp add: ipmitool_command_def)
qed

subsection \<open>C6: the recompute step is repeated without suppression\<close>

text \<open>
  C6: running \<open>update_final_fan_speed\<close> twice in a row with the three latched levels
  unchanged issues the same command twice; the second call is not suppressed. The
  step itself leaves the three levels as they are.
\<close>

theorem update_final_fan_speed_twice:
  "commands (state_of (update_final_fan_speed r2 (state_of (update_final_fan_speed r1 s)))) =
     commands s @ [ipmitool_command (max 1 (min (final_speed s) 100)),
                   ipmitool_command (max 1 (min (final_speed s) 100))]
   \<and> cpu_fan_speed (state_of (update_final_fan_speed r1 s)) = cpu_fan_speed s
   \<and> hdd_fan_speed (state_of (update_final_fan_speed r1 s)) = hdd_fan_speed s
   \<and> nic_fan_speed (state_of (update_final_fan_speed r1 s)) = nic_fan_speed s"
  by (simp add: update_final_state final_speed_def)

subsection \<open>C7: every cycle recomputes and queues its next run\<close>

text \<open>
  C7 says that every monitor cycle, on a successful and on a failed sample, always runs
  the recompute step and then always queues its own next run (after 5 s, 5 s and 60 s).
  Every cycle does run the recompute step, and it queues its next run whenever
  \<open>subprocess.run\<close> returns or raises \<open>CalledProcessError\<close> (\<open>cycle_reschedules\<close>).
  But \<open>set_fan_speed\<close> catches \<open>CalledProcessError\<close> only: when \<open>subprocess.run\<close>
  raises anything else (the command cannot be started), the exception leaves
  \<open>update_final_fan_speed\<close> and the monitor function before \<open>scheduler.enter\<close> is
  reached. The theorem evaluates \<open>check_cpu\<close> on such a cycle: it does not complete
  and the queue stays empty.
\<close>

theorem check_cpu_uncaught_exception:
  "\<not> is_completed (check_cpu fadd (Some 40) Raises_other 100 initial_state)
   \<and> queue (state_of (check_cpu fadd (Some 40) Raises_other 100 initial_state)) = []
   \<and> commands (state_of (check_cpu fadd (Some 40) Raises_other 100 initial_state)) =
       [[''ipmitool'', ''raw'', ''0x3c'', ''0x30'', ''0x00'', ''0x00'', ''3'']]"
  by (simp add: check_cpu_eq Let_def update_final_state final_speed_def initial_state_def
      choose_fan_value_def CPU_THRESHOLDS_def ipmitool_command_def str_int_def
      str_nat.simps digit_char_def)

subsection \<open>C8: a failed sample stays within its domain\<close>

text \<open>
  C8: a failed sample in one domain's cycle (\<open>None\<close> from the processor or network
  reader, an empty dictionary from the storage reader) leaves the latched levels of the
  other two domains unchanged and does not keep the domain from queueing its next cycle;
  no such error ends the process or removes a sibling's pending entry. The cycle with the
  failed sample completes exactly when the same cycle with a reading would, and it
  completes, with the queue extended by its own next entry and nothing removed, whenever
  \<open>subprocess.run\<close> returns or raises \<open>CalledProcessError\<close>.
\<close>

theorem failed_sample_is_isolated:
  "hdd_fan_speed (state_of (check_cpu fadd None r now s)) = hdd_fan_speed s
   \<and> nic_fan_speed (state_of (check_cpu fadd None r now s)) = nic_fan_speed s
   \<and> cpu_fan_speed (state_of (check_nic fadd None r now s)) = cpu_fan_speed s
   \<and> hdd_fan_speed (state_of (check_nic fadd None r now s)) = hdd_fan_speed s
   \<and> cpu_fan_speed (state_of (check_hdds fadd [] r now s)) = cpu_fan_speed s
   \<and> nic_fan_speed (state_of (check_hdds fadd [] r now s)) = nic_fan_speed s
   \<and> is_completed (check_cpu fadd None r now s) = is_completed (check_cpu fadd (Some t) r now s)
   \<and> is_completed (check_nic fadd None r now s) = is_completed (check_nic fadd (Some t) r now s)
   \<and> is_completed (check_hdds fadd [] r now s) = is_completed (check_hdds fadd temps r now s)
   \<and> (r \<noteq> Raises_other \<longrightarrow>
        is_completed (check_cpu fadd None r now s)
        \<and> queue (state_of (check_cpu fadd None r now s)) =
            queue s @ [\<lparr>ev_time = fadd now 5, ev_priority = 1,
                        ev_sequence = sequence s, ev_action = Check_cpu\<rparr>]
        \<and> is_completed (check_nic fadd None r now s)
        \<and> queue (state_of (check_nic fadd None r now s)) =
            queue s @ [\<lparr>ev_time = fadd now 5, ev_priority = 1,
                        ev_sequence = sequence s, ev_action = Check_nic\<rparr>]
        \<and> is_completed (check_hdds fadd [] r now s)
        \<and> queue (state_of (check_hdds fadd [] r now s)) =
            queue s @ [\<lparr>ev_time = fadd now 60, ev_priority = 2,
                        ev_sequence = sequence s, ev_action = Check_hdds\<rparr>])"
proof -
  have frame:
    "hdd_fan_speed (state_of (check_cpu fadd None r now s)) = hdd_fan_speed s"
    "nic_fan_speed (state_of (check_cpu fadd None r now s)) = nic_fan_speed s"
    "cpu_fan_speed (state_of (check_nic fadd None r now s)) = cpu_fan_speed s"
    "hdd_fan_speed (state_of (check_nic fadd None r now s)) = hdd_fan_speed s"
    "cpu_fan_speed (state_of (check_hdds fadd [] r now s)) = cpu_fan_speed s"
    "nic_fan_speed (state_of (check_hdds fadd [] r now s)) = nic_fan_speed s"
    by (simp_all add: check_cpu_eq check_nic_eq check_hdds_eq Let_def update_final_state
        enter_def)
  have same:
    "is_completed (check_cpu fadd None r now s) = is_completed (check_cpu fadd (Some t) r now s)"
    "is_completed (check_nic fadd None r now s) = is_completed (check_nic fadd (Some t) r now s)"
    "is_completed (check_hdds fadd [] r now s) = is_completed (check_hdds fadd temps r now s)"
    by (simp_all add: check_cpu_eq check_nic_eq check_hdds_eq Let_def)
  show ?thesis
    using frame same
      cycle_reschedules[where r = r and fadd = fadd and temp = None and now = now and s = s
        and temps = "[]"]
    by simp
qed

text \<open>
  The witness: the processor reader fails and \<open>ipmitool\<close> exits non-zero, from the
  initial state with one entry of a sibling pending. The sums \<open>0 + 0\<close> and \<open>100 + 5\<close>
  are exact in floating point, so \<open>fadd\<close> is addition here.
\<close>

theorem failed_sample_is_isolated_witness:
  "Raises_CalledProcessError \<noteq> Raises_other
   \<and> is_completed (check_cpu (+) None Raises_CalledProcessError 100
        (enter (+) 0 0 2 Check_hdds initial_state))
   \<and> queue (state_of (check_cpu (+) None Raises_CalledProcessError 100
        (enter (+) 0 0 2 Check_hdds initial_state))) =
       [\<lparr>ev_time = 0, ev_priority = 2, ev_sequence = 0, ev_action = Check_hdds\<rparr>,
        \<lparr>ev_time = 105, ev_priority = 1, ev_sequence = 1, ev_action = Check_cpu\<rparr>]
   \<and> hdd_fan_speed (state_of (check_cpu (+) None Raises_CalledProcessError 100
        (enter (+) 0 0 2 Check_hdds initial_state))) = 3
   \<and> nic_fan_speed (state_of (check_cpu (+) None Raises_CalledProcessError 100
        (enter (+) 0 0 2 Check_hdds initial_state))) = 3"
  using failed_sample_is_isolated
    [of "(+)" Raises_CalledProcessError 100 "enter (+) 0 0 2 Check_hdds initial_state"]
  by (simp add: enter_def initial_state_def)

subsection \<open>C9: the three first cycles come before any second cycle\<close>

text \<open>
  C9 as stated: at startup all three domains are queued with an entry that is due at
  once, and in the execution that follows every domain completes its first cycle before
  any domain begins its second.

  The entries are queued so, but the order of the execution rests on the clock, which is
  the wall clock \<open>time.time\<close>. When it is set back by 10 s while the first processor
  cycle runs, that cycle queues its next run 5 s before the time of the two entries
  that still wait, and the processor cycle runs three times in a row before the storage
  and the network cycle have run once. (The sums of this run, \<open>-10 + 5\<close>, \<open>-5 + 5\<close> and
  \<open>0 + 0\<close>, are exact in floating point, so \<open>fadd\<close> is addition here.)
\<close>

theorem startup_clock_set_back_counterexample:
  "fst (main (+) 0 0 0 clock_set_back) = [Check_cpu, Check_cpu, Check_cpu]
   \<and> fst (main (+) 0 0 0 clock_set_back) ! 1 \<in> set (take 1 (fst (main (+) 0 0 0 clock_set_back)))
   \<and> \<not> {Check_cpu, Check_hdds, Check_nic} \<subseteq> set (take 1 (fst (main (+) 0 0 0 clock_set_back)))"
proof -
  have "fst (main (+) 0 0 0 clock_set_back) = [Check_cpu, Check_cpu, Check_cpu]"
    by code_simp
  then show ?thesis by simp
qed

text \<open>
  The same happens with a clock that does not run backwards when the clock value is so
  large that floating point addition absorbs the interval: the next run is queued for
  the time of the entries that still wait, and the processor entry, of priority 1, goes
  first.
\<close>

lemma startup_absorbed_interval:
  "fst (main add_at_2_60 (2 ^ 60) (2 ^ 60) (2 ^ 60) clock_stands_still) =
     [Check_cpu, Check_cpu, Check_cpu]"
  by code_simp

text \<open>
  C9 as amended: at startup all three domains are queued with an entry that is due at
  once (its time is the clock reading of its \<open>enter\<close> call), and, provided that the
  clock does not run backwards and that at the clock value of startup adding a check
  interval gives a later time, in the execution that follows every domain completes its
  first cycle before any domain begins its second.

  The conditions, in the order of the assumptions: the clock readings of the three
  \<open>enter\<close> calls ascend and no time that passes is negative; floating point addition
  of 0 changes nothing; floating point addition is monotone in its first argument (both
  hold of IEEE addition); and the sum of the last startup reading and each of the three
  intervals is later than that reading. Then, for every finite run of the scheduler,
  whatever the readers return and whatever \<open>subprocess.run\<close> does: the first actions
  called are \<open>check_cpu\<close>, \<open>check_hdds\<close>, \<open>check_nic\<close> in this order, as far as the
  run gets; all three are called when three iterations are run and no exception ends
  \<open>run()\<close> before; and an action is called a second time only after all three have
  been called.
\<close>

theorem startup_first_cycles_before_second:
  assumes "t1 \<le> t2" and "t2 \<le> t3" and "\<forall>i\<in>set inputs. 0 \<le> elapsed i"
    and "\<forall>t. fadd t 0 = t"
    and "\<forall>x y d. x \<le> y \<longrightarrow> fadd x d \<le> fadd y d"
    and "\<forall>a. t3 < fadd t3 (interval_of a)"
  shows "queue (seed fadd t1 t2 t3) =
      [\<lparr>ev_time = t1, ev_priority = 1, ev_sequence = 0, ev_action = Check_cpu\<rparr>,
       \<lparr>ev_time = t2, ev_priority = 2, ev_sequence = 1, ev_action = Check_hdds\<rparr>,
       \<lparr>ev_time = t3, ev_priority = 3, ev_sequence = 2, ev_action = Check_nic\<rparr>]
    \<and> take 3 (fst (main fadd t1 t2 t3 inputs)) =
        take (length (fst (main fadd t1 t2 t3 inputs))) [Check_cpu, Check_hdds, Check_nic]
    \<and> (3 \<le> length inputs \<and> (\<forall>i\<in>set (take 3 inputs). actuator i \<noteq> Raises_other) \<longrightarrow>
        take 3 (fst (main fadd t1 t2 t3 inputs)) = [Check_cpu, Check_hdds, Check_nic])
    \<and> (\<forall>k<length (fst (main fadd t1 t2 t3 inputs)).
          fst (main fadd t1 t2 t3 inputs) ! k \<in> set (take k (fst (main fadd t1 t2 t3 inputs))) \<longrightarrow>
          {Check_cpu, Check_hdds, Check_nic} \<subseteq> set (take k (fst (main fadd t1 t2 t3 inputs))))"
proof -
  define acts where "acts = fst (main fadd t1 t2 t3 inputs)"
  let ?L = "[Check_cpu, Check_hdds, Check_nic]"
  have pre: "take 3 acts = take (length acts) ?L"
    and enough: "3 \<le> length inputs \<Longrightarrow>
      \<forall>i\<in>set (take 3 inputs). actuator i \<noteq> Raises_other \<Longrightarrow> 3 \<le> length acts"
    using startup_prefix[OF assms] by (simp_all add: acts_def)
  have full: "take 3 acts = ?L" if "3 \<le> length acts"
    using pre that by simp
  have second: "set ?L \<subseteq> set (take k acts)"
    if k: "k < length acts" and rep: "acts ! k \<in> set (take k acts)" for k
  proof (cases "k < 3")
    case True
    from rep obtain j where j: "j < k" "acts ! j = acts ! k"
      using k by (auto simp: in_set_conv_nth)
    have nth: "acts ! m = ?L ! m" if "m \<le> k" for m
    proof -
      have "m < 3" "m < length acts" using that True k by simp_all
      then have "acts ! m = take 3 acts ! m" by simp
      also have "\<dots> = take (length acts) ?L ! m" using pre by simp
      also have "\<dots> = ?L ! m" using \<open>m < length acts\<close> by simp
      finally show ?thesis .
    qed
    have "?L ! j = ?L ! k" using nth[of j] nth[of k] j by simp
    moreover have "distinct ?L" by simp
    moreover have "j < length ?L" "k < length ?L" using True j(1) by simp_all
    ultimately have "j = k"
      by (metis nth_eq_iff_index_eq)
    then show ?thesis using j(1) by simp
  next
    case False
    then have "3 \<le> length acts" "3 \<le> k" using k by simp_all
    then have "set ?L = set (take 3 acts)" using full by simp
    also have "\<dots> \<subseteq> set (take k acts)"
      using \<open>3 \<le> k\<close> by (rule set_take_subset_set_take)
    finally show ?thesis .
  qed
  have q: "queue (seed fadd t1 t2 t3) =
      [\<lparr>ev_time = t1, ev_priority = 1, ev_sequence = 0, ev_action = Check_cpu\<rparr>,
       \<lparr>ev_time = t2, ev_priority = 2, ev_sequence = 1, ev_action = Check_hdds\<rparr>,
       \<lparr>ev_time = t3, ev_priority = 3, ev_sequence = 2, ev_action = Check_nic\<rparr>]"
    using assms(4) by (simp add: queue_seed)
  have a: "take 3 (fst (main fadd t1 t2 t3 inputs)) =
      take (length (fst (main fadd t1 t2 t3 inputs))) ?L"
    using pre by (simp add: acts_def)
  have b: "3 \<le> length inputs \<and> (\<forall>i\<in>set (take 3 inputs). actuator i \<noteq> Raises_other) \<longrightarrow>
      take 3 (fst (main fadd t1 t2 t3 inputs)) = ?L"
    using enough full by (simp add: acts_def)
  have c: "\<forall>k<length (fst (main fadd t1 t2 t3 inputs)).
      fst (main fadd t1 t2 t3 inputs) ! k \<in> set (take k (fst (main fadd t1 t2 t3 inputs))) \<longrightarrow>
      {Check_cpu, Check_hdds, Check_nic} \<subseteq> set (take k (fst (main fadd t1 t2 t3 inputs)))"
    using second by (simp add: acts_def)
  show ?thesis using q a b c by blast
qed

text \<open>
  The witness: the run \<open>slow_start\<close>, after three \<open>enter\<close> calls that read the clock
  value 0. All sums of this run are sums of small integers, exact in floating point, so
  \<open>fadd\<close> is addition. The fourth action is the second processor cycle.
\<close>

theorem startup_first_cycles_before_second_witness:
  "(0::real) \<le> 0
   \<and> 0 \<le> elapsed (slow_start ! 0) \<and> 0 \<le> elapsed (slow_start ! 1)
   \<and> 0 \<le> elapsed (slow_start ! 2) \<and> 0 \<le> elapsed (slow_start ! 3)
   \<and> (0::real) < 0 + interval_of Check_cpu
   \<and> (0::real) < 0 + interval_of Check_hdds
   \<and> (0::real) < 0 + interval_of Check_nic
   \<and> take 3 (fst (main (+) 0 0 0 slow_start)) = [Check_cpu, Check_hdds, Check_nic]
   \<and> fst (main (+) 0 0 0 slow_start) = [Check_cpu, Check_hdds, Check_nic, Check_cpu]"
proof -
  have el: "\<forall>i\<in>set slow_start. 0 \<le> elapsed i" by (simp add: slow_start_def)
  have zero: "\<forall>t::real. (+) t 0 = t" by simp
  have mono: "\<forall>x y d::real. x \<le> y \<longrightarrow> (+) x d \<le> (+) y d" by simp
  have later: "\<forall>a. (0::real) < (+) 0 (interval_of a)" by (simp add: interval_pos)
  have ok: "3 \<le> length slow_start \<and> (\<forall>i\<in>set (take 3 slow_start). actuator i \<noteq> Raises_other)"
    by (simp add: slow_start_def)
  from startup_first_cycles_before_second[OF order_refl order_refl el zero mono later] ok
  have first: "take 3 (fst (main (+) 0 0 0 slow_start)) = [Check_cpu, Check_hdds, Check_nic]"
    by blast
  have whole: "fst (main (+) 0 0 0 slow_start) = [Check_cpu, Check_hdds, Check_nic, Check_cpu]"
    by code_simp
  have els: "0 \<le> elapsed (slow_start ! 0)" "0 \<le> elapsed (slow_start ! 1)"
    "0 \<le> elapsed (slow_start ! 2)" "0 \<le> elapsed (slow_start ! 3)"
    by (simp_all add: slow_start_def)
  have ivs: "(0::real) < 0 + interval_of Check_cpu" "(0::real) < 0 + interval_of Check_hdds"
    "(0::real) < 0 + interval_of Check_nic"
    by (simp_all add: CPU_SENSORS_CHECK_INTERVAL_def HDD_SENSORS_CHECK_INTERVAL_def
        NIC_SENSORS_CHECK_INTERVAL_def)
  show ?thesis using first whole els ivs by blast
qed

subsection \<open>C10: the latched levels stay between 1 and 7\<close>

text \<open>
  C10: in every reachable state each of \<open>cpu_fan_speed\<close>, \<open>nic_fan_speed\<close> and
  \<open>hdd_fan_speed\<close> lies in 1..7, hence in 1..100: each starts at 3 and every update
  writes a level of a configured table or the fallback 1; so the clamp of
  \<open>set_fan_speed\<close> never changes the value that arbitration produces.

  The reachable states are the states of \<open>main\<close> after any number of scheduler
  iterations, for any clock readings, any values of the readers and any behaviour of
  \<open>subprocess.run\<close>. The state after a cycle has the latched levels the recompute step
  of that cycle saw, so the statement about the latest command covers every recompute
  step of every execution.
\<close>

theorem latched_levels_in_range:
  "levels_in_range initial_state
   \<and> levels_in_range (final_state (snd (main fadd t1 t2 t3 inputs)))
   \<and> last_unclamped (final_state (snd (main fadd t1 t2 t3 inputs)))
   \<and> max 1 (min (final_speed (final_state (snd (main fadd t1 t2 t3 inputs)))) 100)
       = final_speed (final_state (snd (main fadd t1 t2 t3 inputs)))"
proof -
  have inv: "levels_in_range (final_state (snd (main fadd t1 t2 t3 inputs)))
      \<and> last_unclamped (final_state (snd (main fadd t1 t2 t3 inputs)))"
    unfolding main_def using seed_inv by (intro run_inv) simp_all
  have "levels_in_range initial_state"
    by (simp add: levels_in_range_def initial_state_def)
  then show ?thesis using inv by (auto simp: levels_in_range_def final_speed_def)
qed

end
